theory Spec2Isabelle
  imports Complex_Main "HOL-Library.Word" "HOL-Library.Log_Nat"
begin

section \<open>Strings, errors and external capabilities\<close>



definition toLowerByte :: "char \<Rightarrow> char" where
  "toLowerByte c =
     (let n = (of_char c :: nat) in if 65 \<le> n \<and> n \<le> 90 then char_of (n + 32) else c)"

definition ToLower :: "string \<Rightarrow> string" where
  "ToLower s = map toLowerByte s"



text \<open>
  Go errors. \<open>ErrRecordNotFound\<close> is the ORM's sentinel, which the services recognise with
  \<open>errors.Is\<close>; \<open>ErrorText\<close> is an error that only carries its message (\<open>errors.New\<close>,
  \<open>fmt.Errorf\<close> without a wrapped error, an error reported by the database);
  \<open>Wrapped p e\<close> is \<open>fmt.Errorf(p + "%w", e)\<close>.
\<close>

datatype error = ErrRecordNotFound | ErrorText string | Wrapped string error



type_synonym uuid = "128 word"
type_synonym time = nat


text \<open>
  What the code obtains from outside the repository during one operation: the identifier
  parser and generator of the uuid package, the database's own identifier default, the clock
  (\<open>time_Now e k\<close> is the result of the \<open>k\<close>-th call of \<open>time.Now\<close> in the operation),
  and the three functions of the hashing package, which wrap bcrypt and the random source.
  The zero \<open>time.Time\<close> is \<open>0\<close>.
\<close>

record env =
  uuid_Parse :: "string \<Rightarrow> uuid option"
  uuid_New :: uuid
  gen_random_uuid :: uuid
  time_Now :: "nat \<Rightarrow> time"
  HashPassword :: "string \<Rightarrow> error + string"
  VerifyPassword :: "string \<Rightarrow> string \<Rightarrow> error option"
  GenerateToken :: "error + string"

section \<open>Entities\<close>

record User =
  ID :: uuid
  Name :: string
  Email :: string
  Password :: string
  Role :: string
  Provider :: string
  Photo :: string
  Verified :: bool
  CreatedAt :: time
  UpdatedAt :: time
  DeletedAt :: "time option"

record CreateUserData =
  Name :: string
  Email :: string
  Password :: string
  Role :: string
  Provider :: string
  Photo :: string
  Verified :: bool

record UpdateUserData =
  Name :: string
  Email :: string
  Role :: string
  Photo :: string
  Verified :: bool

record UserModel =
  ID :: "uuid option"
  Name :: string
  Email :: string
  Password :: string
  Role :: string
  Provider :: string
  Photo :: string
  Verified :: bool
  CreatedAt :: time
  UpdatedAt :: time
  DeletedAt :: "time option"

record UserResponse =
  ID :: uuid
  Name :: string
  Email :: string
  Role :: string
  Provider :: string
  Photo :: string
  Verified :: bool
  CreatedAt :: time
  UpdatedAt :: time
  DeletedAt :: "time option"

record ListUsersQuery =
  Page :: int
  PerPage :: int
  Search :: string
  SearchBy :: string
  Role :: string
  Provider :: string
  Verified :: "bool option"
  ShowDeleted :: bool

record SignUpData =
  Name :: string
  Email :: string
  Password :: string
  PasswordConfirm :: string
  Photo :: string

section \<open>The table behind the ORM\<close>

text \<open>
  The ORM and the database are external. The table \<open>users\<close> is a list of rows in insertion
  order; a row has the columns of \<open>User\<close>. The operations below give the ORM calls of the two
  repositories the meaning the repositories rely on:
  \<^item> a struct with a \<open>DeletedAt\<close> field is soft-deleted: \<open>Delete\<close> stamps the column, and every
    query leaves stamped rows out unless it is \<open>Unscoped\<close>;
  \<^item> \<open>First\<close> returns a matching row or \<open>ErrRecordNotFound\<close>;
  \<^item> \<open>Create\<close> is refused when the identifier or the email is already in the table, stamped
    rows included (primary key and the unique index on email), with the message the
    repository's tests use for it;
  \<^item> \<open>Updates\<close> with a struct writes the non-zero fields only;
  \<^item> a statement that names no struct (\<open>Update("deleted_at", nil)\<close> in \<open>RestoreUser\<close>) works on
    the same table.
  This is the contract the comments and the documentation of the repository state for the ORM;
  the ORM itself is not part of the sources. Other storage failures (a lost connection, a value
  longer than its column) are not modelled.
\<close>

type_synonym users = "User list"

definition Scoped :: "bool \<Rightarrow> users \<Rightarrow> users" where
  "Scoped unscoped rows = (if unscoped then rows else filter (\<lambda>r. User.DeletedAt r = None) rows)"

definition First :: "(User \<Rightarrow> bool) \<Rightarrow> users \<Rightarrow> error + User" where
  "First cond rows = (case find cond rows of None \<Rightarrow> Inl ErrRecordNotFound | Some r \<Rightarrow> Inr r)"





definition Unscoped_Delete :: "(User \<Rightarrow> bool) \<Rightarrow> users \<Rightarrow> users \<times> nat" where
  "Unscoped_Delete cond rows = (filter (\<lambda>r. \<not> cond r) rows, length (filter cond rows))"




text \<open>The condition \<open>id = ?\<close> with a string argument: the column equals the identifier
  the string denotes.\<close>

definition id_is :: "env \<Rightarrow> string \<Rightarrow> User \<Rightarrow> bool" where
  "id_is e uid r = (uuid_Parse e uid = Some (User.ID r))"

text \<open>A string that denotes no identifier makes the database reject the statement.\<close>

definition invalid_uuid_syntax :: error where
  "invalid_uuid_syntax = ErrorText ''invalid input syntax for type uuid''"

section \<open>The auth repository\<close>



definition authRepository_GetUserByID :: "env \<Rightarrow> users \<Rightarrow> string \<Rightarrow> error + User" where
  "authRepository_GetUserByID e db uid =
     (if uuid_Parse e uid = None then Inl invalid_uuid_syntax
      else First (id_is e uid) (Scoped False db))"

section \<open>The auth service\<close>







section \<open>The user repository\<close>

text \<open>\<open>AllowedSearchFields\<close> is a Go map; a key that is absent reads as \<open>false\<close>.\<close>

definition AllowedSearchFields :: "string \<rightharpoonup> bool" where
  "AllowedSearchFields = [''name'' \<mapsto> True, ''email'' \<mapsto> True]"

definition allowed :: "string \<Rightarrow> bool" where
  "allowed field = (case AllowedSearchFields field of None \<Rightarrow> False | Some b \<Rightarrow> b)"


text \<open>The same with \<open>Select("id, name, email, role, photo, created_at")\<close>: the other fields
  keep their zero values.\<close>

definition scan_selected :: "User \<Rightarrow> UserResponse" where
  "scan_selected r =
     \<lparr>UserResponse.ID = User.ID r,
      UserResponse.Name = User.Name r,
      UserResponse.Email = User.Email r,
      UserResponse.Role = User.Role r,
      UserResponse.Provider = [],
      UserResponse.Photo = User.Photo r,
      UserResponse.Verified = False,
      UserResponse.CreatedAt = User.CreatedAt r,
      UserResponse.UpdatedAt = 0,
      UserResponse.DeletedAt = None\<rparr>"

definition toDomain :: "UserResponse \<Rightarrow> UserResponse" where
  "toDomain model =
     (let user =
        \<lparr>UserResponse.ID = UserResponse.ID model,
         UserResponse.Name = UserResponse.Name model,
         UserResponse.Email = UserResponse.Email model,
         UserResponse.Role = UserResponse.Role model,
         UserResponse.Provider = UserResponse.Provider model,
         UserResponse.Photo = UserResponse.Photo model,
         UserResponse.Verified = UserResponse.Verified model,
         UserResponse.CreatedAt = UserResponse.CreatedAt model,
         UserResponse.UpdatedAt = UserResponse.UpdatedAt model,
         UserResponse.DeletedAt = None\<rparr>
      in if UserResponse.DeletedAt model \<noteq> None
         then user\<lparr>UserResponse.DeletedAt := UserResponse.DeletedAt model\<rparr> else user)"









definition userRepository_HardDeleteUser :: "env \<Rightarrow> users \<Rightarrow> string \<Rightarrow> error + users" where
  "userRepository_HardDeleteUser e db uid =
     (if uuid_Parse e uid = None then Inl invalid_uuid_syntax
      else case Unscoped_Delete (id_is e uid) db of
             (db', rowsAffected) \<Rightarrow>
               if rowsAffected = 0 then Inl ErrRecordNotFound else Inr db')"

subsection \<open>Listing\<close>

text \<open>
  \<open>GetUsers\<close> collects \<open>Where\<close> conditions: an SQL fragment with one placeholder, and the
  argument bound to it. The fragment of the search condition is built from the query's
  \<open>SearchBy\<close> with \<open>fmt.Sprintf("%s ILIKE ?", ...)\<close>.
\<close>

datatype arg = StringArg string | BoolArg bool

type_synonym condition = "string \<times> arg"

text \<open>
  \<open>LIKE pattern text\<close>: \<open>%\<close> matches any run of bytes, \<open>_\<close> one byte, a backslash takes the
  next pattern byte literally (and matches nothing as the last byte of the pattern).
  \<open>ILIKE\<close> is \<open>LIKE\<close> without regard to the case of ASCII letters.
\<close>

fun LIKE :: "string \<Rightarrow> string \<Rightarrow> bool" where
  "LIKE [] t = (t = [])"
| "LIKE (p # ps) [] = (p = CHR ''%'' \<and> LIKE ps [])"
| "LIKE (p # ps) (c # ts) =
     (if p = CHR ''%'' then LIKE ps (c # ts) \<or> LIKE (p # ps) ts
      else if p = CHR ''_'' then LIKE ps ts
      else if p = CHR 0x5C then (case ps of [] \<Rightarrow> False | q # qs \<Rightarrow> c = q \<and> LIKE qs ts)
      else c = p \<and> LIKE ps ts)"

definition ILIKE :: "string \<Rightarrow> string \<Rightarrow> bool" where
  "ILIKE text pattern = LIKE (ToLower pattern) (ToLower text)"

text \<open>The fragments the database can evaluate on a row of \<open>users\<close>, and their value.\<close>

definition condition_valid :: "condition \<Rightarrow> bool" where
  "condition_valid c =
     (case c of
        (sql, StringArg v) \<Rightarrow>
          sql = ''name ILIKE ?'' \<or> sql = ''email ILIKE ?'' \<or> sql = ''role = ?'' \<or> sql = ''provider = ?''
      | (sql, BoolArg b) \<Rightarrow> sql = ''verified = ?'')"

definition condition_holds :: "condition \<Rightarrow> User \<Rightarrow> bool" where
  "condition_holds c r =
     (case c of
        (sql, StringArg v) \<Rightarrow>
          if sql = ''name ILIKE ?'' then ILIKE (User.Name r) v
          else if sql = ''email ILIKE ?'' then ILIKE (User.Email r) v
          else if sql = ''role = ?'' then User.Role r = v
          else if sql = ''provider = ?'' then User.Provider r = v
          else False
      | (sql, BoolArg b) \<Rightarrow> sql = ''verified = ?'' \<and> User.Verified r = b)"

definition invalid_statement :: error where
  "invalid_statement = ErrorText ''syntax error in SQL statement''"

definition search_conditions :: "ListUsersQuery \<Rightarrow> condition list" where
  "search_conditions query =
     (if ListUsersQuery.Search query \<noteq> [] \<and> ListUsersQuery.SearchBy query \<noteq> []
      then (if allowed (ListUsersQuery.SearchBy query)
            then [(ListUsersQuery.SearchBy query @ '' ILIKE ?'',
                   StringArg (''%'' @ ListUsersQuery.Search query @ ''%''))]
            else [])
      else [])"

definition standard_conditions :: "ListUsersQuery \<Rightarrow> condition list" where
  "standard_conditions query =
     (if ListUsersQuery.Role query \<noteq> [] then [(''role = ?'', StringArg (ListUsersQuery.Role query))] else [])
     @ (if ListUsersQuery.Provider query \<noteq> []
        then [(''provider = ?'', StringArg (ListUsersQuery.Provider query))] else [])
     @ (case ListUsersQuery.Verified query of
          None \<Rightarrow> [] | Some b \<Rightarrow> [(''verified = ?'', BoolArg b)])"

text \<open>All conditions of the statement, in the order \<open>GetUsers\<close> adds them.\<close>

definition where_conditions :: "ListUsersQuery \<Rightarrow> condition list" where
  "where_conditions query = search_conditions query @ standard_conditions query"

text \<open>Go's \<open>int\<close> is 64 bits wide: the offset is the product reduced to that range.\<close>

definition wrap64 :: "int \<Rightarrow> int" where
  "wrap64 x = (x + 2 ^ 63) mod 2 ^ 64 - 2 ^ 63"

text \<open>\<open>Order("created_at DESC")\<close>; rows with equal stamps stay in table order.\<close>

definition Order_created_at_DESC :: "users \<Rightarrow> users" where
  "Order_created_at_DESC rows = sort_key (\<lambda>r. - int (User.CreatedAt r)) rows"

text \<open>\<open>Offset\<close> and \<open>Limit\<close> apply to the statement only when positive.\<close>

definition Offset :: "int \<Rightarrow> users \<Rightarrow> users" where
  "Offset n rows = (if 0 < n then drop (nat n) rows else rows)"

definition Limit :: "int \<Rightarrow> users \<Rightarrow> users" where
  "Limit n rows = (if 0 < n then take (nat n) rows else rows)"

text \<open>
  The two statements \<open>GetUsers\<close> runs on the conditions it has collected: \<open>Count\<close>, then
  \<open>Select(...).Offset(...).Limit(...).Order(...).Find\<close>. A condition the database cannot
  evaluate makes the first of them fail.
\<close>

definition Count_then_Find ::
  "users \<Rightarrow> bool \<Rightarrow> condition list \<Rightarrow> int \<Rightarrow> int \<Rightarrow> error + UserResponse list \<times> int" where
  "Count_then_Find db unscoped conds offset limit =
     (if \<not> list_all condition_valid conds then Inl invalid_statement
      else
        (let matching = filter (\<lambda>r. list_all (\<lambda>c. condition_holds c r) conds) (Scoped unscoped db);
             total' = int (length matching);
             models = map scan_selected (Limit limit (Offset offset (Order_created_at_DESC matching)))
         in Inr (models, total')))"

definition userRepository_GetUsers ::
  "users \<Rightarrow> ListUsersQuery \<Rightarrow> error + UserResponse list \<times> int" where
  "userRepository_GetUsers db query0 =
     (let query1 = (if ListUsersQuery.Page query0 \<le> 0
                    then query0\<lparr>ListUsersQuery.Page := 1\<rparr> else query0);
          query = (if ListUsersQuery.PerPage query1 \<le> 0
                   then query1\<lparr>ListUsersQuery.PerPage := 10\<rparr> else query1);
          offset = wrap64 ((ListUsersQuery.Page query - 1) * ListUsersQuery.PerPage query)
      in case Count_then_Find db (ListUsersQuery.ShowDeleted query) (where_conditions query)
                offset (ListUsersQuery.PerPage query) of
           Inl err \<Rightarrow> Inl err
         | Inr (models, total') \<Rightarrow> Inr (map toDomain models, total'))"

section \<open>The user service\<close>

definition GetUsers :: "users \<Rightarrow> ListUsersQuery \<Rightarrow> error + UserResponse list \<times> int" where
  "GetUsers db query0 =
     (let query1 = (if ListUsersQuery.Page query0 \<le> 0
                    then query0\<lparr>ListUsersQuery.Page := 1\<rparr> else query0);
          query = (if ListUsersQuery.PerPage query1 \<le> 0 \<or> 100 < ListUsersQuery.PerPage query1
                   then query1\<lparr>ListUsersQuery.PerPage := 10\<rparr> else query1)
      in userRepository_GetUsers db query)"










subsection \<open>The page count\<close>

text \<open>
  \<open>CalculatePagination\<close> computes in float64. A finite float64 is modelled by the rational
  number it denotes, and each operation by the exact result rounded to the nearest float64,
  ties to even, as IEEE 754 prescribes. The exponent range is not limited: apart from zero,
  the values that occur here are quotients of 64-bit integers, far from overflow and
  underflow.
\<close>

text \<open>Rounding to the nearest integer, a tie going to the even one.\<close>

definition round_half_even :: "rat \<Rightarrow> int" where
  "round_half_even x =
     (let f = \<lfloor>x\<rfloor>; d = x - of_int f
      in if d < 1 / 2 then f else if 1 / 2 < d then f + 1 else if even f then f else f + 1)"

text \<open>The binary exponent of a positive value \<open>x\<close>: the \<open>e\<close> with
  \<open>2 powi e \<le> x < 2 powi (e + 1)\<close>.\<close>

definition exponent :: "rat \<Rightarrow> int" where
  "exponent x =
     (if 1 \<le> x then bitlen \<lfloor>x\<rfloor> - 1
      else (let j = bitlen \<lfloor>1 / x\<rfloor> - 1 in if x = 2 powi (- j) then - j else - j - 1))"

text \<open>The value of the float64 nearest to \<open>x\<close>: the significand has 53 bits.\<close>

definition round_float64 :: "rat \<Rightarrow> rat" where
  "round_float64 x =
     (if x = 0 then 0
      else (let e = exponent \<bar>x\<bar>;
                m = round_half_even (\<bar>x\<bar> * 2 powi (52 - e))
            in sgn x * of_int m * 2 powi (e - 52)))"

text \<open>The conversion \<open>float64(n)\<close> of an integer, the division of two float64 values,
  \<open>math.Ceil\<close>, and the conversion \<open>int(x)\<close>, which drops the fraction and, for a value the
  64-bit \<open>int\<close> cannot hold, gives the least \<open>int\<close> (as on amd64).\<close>

definition float64 :: "int \<Rightarrow> rat" where
  "float64 n = round_float64 (of_int n)"

definition float64_div :: "rat \<Rightarrow> rat \<Rightarrow> rat" where
  "float64_div x y = round_float64 (x / y)"

definition math_Ceil :: "rat \<Rightarrow> rat" where
  "math_Ceil x = of_int \<lceil>x\<rceil>"

definition int_of_float64 :: "rat \<Rightarrow> int" where
  "int_of_float64 x =
     (let t = (if 0 \<le> x then \<lfloor>x\<rfloor> else \<lceil>x\<rceil>)
      in if - (2 ^ 63) \<le> t \<and> t < 2 ^ 63 then t else - (2 ^ 63))"

definition CalculatePagination :: "int \<Rightarrow> int \<Rightarrow> int \<Rightarrow> int" where
  "CalculatePagination total' page perPage0 =
     (let perPage = (if perPage0 \<le> 0 then 10 else perPage0)
      in int_of_float64 (math_Ceil (float64_div (float64 total') (float64 perPage))))"

section \<open>Example data\<close>



definition example_row :: User where
  "example_row =
     \<lparr>User.ID = 1, User.Name = ''Ann'', User.Email = ''ann@example.com'',
      User.Password = ''$2a$10$longpass1'', User.Role = ''user'', User.Provider = ''local'',
      User.Photo = ''default.png'', User.Verified = False, User.CreatedAt = 1000,
      User.UpdatedAt = 1000, User.DeletedAt = None\<rparr>"

definition example_query :: ListUsersQuery where
  "example_query =
     \<lparr>Page = 0, PerPage = 1000, Search = ''admin'', SearchBy = ''role'',
      ListUsersQuery.Role = [], ListUsersQuery.Provider = [],
      ListUsersQuery.Verified = None, ShowDeleted = False\<rparr>"




section \<open>Properties\<close>

subsection \<open>Lookups in the table\<close>






subsection \<open>Signing in\<close>



subsection \<open>Signing up\<close>




subsection \<open>Listing\<close>

lemma allowed_iff: "allowed f = (f = ''name'' \<or> f = ''email'')"
  by (simp add: allowed_def AllowedSearchFields_def)

lemma search_conditions_valid: "list_all condition_valid (search_conditions q)"
  by (auto simp add: search_conditions_def allowed_iff condition_valid_def)

lemma standard_conditions_valid: "list_all condition_valid (standard_conditions q)"
  by (auto simp add: standard_conditions_def condition_valid_def split: option.splits)

lemma where_conditions_valid: "list_all condition_valid (where_conditions q)"
  by (simp add: where_conditions_def search_conditions_valid standard_conditions_valid)

lemma standard_conditions_fixed:
  "list_all (\<lambda>c. fst c \<in> set [''role = ?'', ''provider = ?'', ''verified = ?''])
     (standard_conditions q)"
  by (auto simp add: standard_conditions_def split: option.splits)

lemma length_Limit: "0 < n \<Longrightarrow> int (length (Limit n rows)) \<le> n"
  by (simp add: Limit_def)

lemma where_conditions_Page: "where_conditions (q\<lparr>Page := p\<rparr>) = where_conditions q"
  by (simp add: where_conditions_def search_conditions_def standard_conditions_def)

lemma where_conditions_PerPage: "where_conditions (q\<lparr>PerPage := p\<rparr>) = where_conditions q"
  by (simp add: where_conditions_def search_conditions_def standard_conditions_def)

lemma Count_then_Find_succeeds:
  assumes "list_all condition_valid conds"
  shows "\<exists>models n. Count_then_Find db unscoped conds offset limit = Inr (models, n)
           \<and> (0 < limit \<longrightarrow> int (length models) \<le> limit)"
  using assms by (simp add: Count_then_Find_def Let_def length_Limit)

text \<open>The listing in terms of the effective page and page size.\<close>

lemma userRepository_GetUsers_effective:
  "userRepository_GetUsers db q =
     (case Count_then_Find db (ShowDeleted q) (where_conditions q)
             (wrap64 (((if Page q \<le> 0 then 1 else Page q) - 1)
                       * (if PerPage q \<le> 0 then 10 else PerPage q)))
             (if PerPage q \<le> 0 then 10 else PerPage q) of
        Inl err \<Rightarrow> Inl err
      | Inr (models, n) \<Rightarrow> Inr (map toDomain models, n))"
  by (cases "Page q \<le> 0"; cases "PerPage q \<le> 0")
     (simp_all add: userRepository_GetUsers_def Let_def where_conditions_Page
        where_conditions_PerPage)

lemma userRepository_GetUsers_succeeds:
  "\<exists>users n. userRepository_GetUsers db q = Inr (users, n)
      \<and> int (length users) \<le> (if PerPage q \<le> 0 then 10 else PerPage q)"
proof -
  let ?limit = "if PerPage q \<le> 0 then 10 else PerPage q"
  have "0 < ?limit" by simp
  with Count_then_Find_succeeds [OF where_conditions_valid, of db "ShowDeleted q" q
      "wrap64 (((if Page q \<le> 0 then 1 else Page q) - 1) * ?limit)" ?limit]
  obtain models n where "Count_then_Find db (ShowDeleted q) (where_conditions q)
      (wrap64 (((if Page q \<le> 0 then 1 else Page q) - 1) * ?limit)) ?limit = Inr (models, n)"
    and "int (length models) \<le> ?limit"
    by blast
  then show ?thesis
    by (simp add: userRepository_GetUsers_effective)
qed

text \<open>
  Claim C8. The service's \<open>GetUsers\<close> hands the repository the query with page 1 when the
  requested page is at most 0, with 10 per page when the requested number is at most 0 or
  above 100, and with the requested values otherwise; it answers with a page, never with an
  error, and the page has at most that many accounts.
\<close>

theorem GetUsers_clamps:
  "GetUsers db q =
     userRepository_GetUsers db
       (q\<lparr>Page := (if Page q \<le> 0 then 1 else Page q),
          PerPage := (if PerPage q \<le> 0 \<or> 100 < PerPage q then 10 else PerPage q)\<rparr>)
   \<and> (\<exists>users n. GetUsers db q = Inr (users, n)
         \<and> int (length users) \<le> (if PerPage q \<le> 0 \<or> 100 < PerPage q then 10 else PerPage q))"
proof -
  define q' where "q' = q\<lparr>Page := (if Page q \<le> 0 then 1 else Page q),
          PerPage := (if PerPage q \<le> 0 \<or> 100 < PerPage q then 10 else PerPage q)\<rparr>"
  have eq: "GetUsers db q = userRepository_GetUsers db q'"
    by (simp add: GetUsers_def Let_def q'_def)
  have per: "(if PerPage q' \<le> 0 then 10 else PerPage q')
               = (if PerPage q \<le> 0 \<or> 100 < PerPage q then 10 else PerPage q)"
    by (simp add: q'_def)
  from userRepository_GetUsers_succeeds [of db q'] per
  obtain users n where "userRepository_GetUsers db q' = Inr (users, n)"
    and "int (length users) \<le> (if PerPage q \<le> 0 \<or> 100 < PerPage q then 10 else PerPage q)"
    by auto
  with eq show ?thesis
    unfolding q'_def by simp
qed

theorem GetUsers_clamps_witness:
  "GetUsers [example_row] example_query =
     userRepository_GetUsers [example_row] (example_query\<lparr>Page := 1, PerPage := 10\<rparr>)
   \<and> GetUsers [example_row] example_query = Inr ([scan_selected example_row], 1)"
proof -
  have "GetUsers [example_row] example_query = Inr ([scan_selected example_row], 1)"
    by code_simp
  with GetUsers_clamps [of "[example_row]" example_query] show ?thesis
    by (simp add: example_query_def)
qed

text \<open>
  Claim C10. When \<open>SearchBy\<close> is neither "name" nor "email", the repository's \<open>GetUsers\<close>
  answers the same whatever the search term is, page and count alike; it does not fail; and
  the conditions of its statement are the standard ones only, each with one of the three
  fixed fragments, so the field name never reaches the statement.
\<close>

theorem GetUsers_unlisted_search_field:
  assumes "SearchBy q \<noteq> ''name''" and "SearchBy q \<noteq> ''email''"
  shows "userRepository_GetUsers db (q\<lparr>Search := s\<rparr>) = userRepository_GetUsers db q
       \<and> (\<exists>users n. userRepository_GetUsers db q = Inr (users, n))
       \<and> where_conditions q = standard_conditions q
       \<and> list_all (\<lambda>c. fst c \<in> set [''role = ?'', ''provider = ?'', ''verified = ?''])
            (where_conditions q)"
proof -
  have none: "search_conditions (q\<lparr>Search := t\<rparr>) = []" for t
    using assms by (simp add: search_conditions_def allowed_iff)
  have std: "standard_conditions (q\<lparr>Search := t\<rparr>) = standard_conditions q" for t
    by (simp add: standard_conditions_def)
  have w: "where_conditions (q\<lparr>Search := t\<rparr>) = standard_conditions q" for t
    by (simp add: where_conditions_def none std)
  have w0: "where_conditions q = standard_conditions q"
    using w [of "Search q"] by simp
  have "userRepository_GetUsers db (q\<lparr>Search := s\<rparr>) = userRepository_GetUsers db q"
    by (simp add: userRepository_GetUsers_effective w w0)
  moreover obtain users n where "userRepository_GetUsers db q = Inr (users, n)"
    using userRepository_GetUsers_succeeds [of db q] by blast
  ultimately show ?thesis
    using w0 standard_conditions_fixed [of q] by simp
qed

theorem GetUsers_unlisted_search_field_witness:
  "userRepository_GetUsers [example_row] (example_query\<lparr>Search := ''zzz''\<rparr>)
     = userRepository_GetUsers [example_row] example_query
   \<and> where_conditions example_query = []"
proof -
  have "SearchBy example_query \<noteq> ''name''" and "SearchBy example_query \<noteq> ''email''"
    by (simp_all add: example_query_def)
  from GetUsers_unlisted_search_field [OF this, of "[example_row]" "''zzz''"]
  show ?thesis
    by (simp add: standard_conditions_def example_query_def)
qed

subsection \<open>Soft delete and restore\<close>
















subsection \<open>The generic update\<close>







subsection \<open>Creating accounts\<close>







subsection \<open>The page count\<close>

lemma powi_plus1: "(2::rat) powi (n + 1) = 2 * 2 powi n"
  using power_int_add [of "2::rat" n 1] by simp

lemma exponent_ge1:
  assumes "1 \<le> x"
  shows "2 powi (exponent x) \<le> x \<and> x < 2 powi (exponent x + 1)"
proof -
  let ?n = "\<lfloor>x\<rfloor>"
  have n: "0 < ?n" using assms by linarith
  have b1: "1 \<le> bitlen ?n" using n by (simp add: bitlen_alt_def)
  from bitlen_bounds [OF n]
  have lo: "2 ^ nat (bitlen ?n - 1) \<le> ?n" and hi: "?n < 2 ^ nat (bitlen ?n)"
    by simp_all
  have e: "exponent x = bitlen ?n - 1"
    using assms by (simp add: exponent_def)
  have p1: "(2::rat) powi (bitlen ?n - 1) = 2 ^ nat (bitlen ?n - 1)"
    using b1 by (simp add: power_int_def)
  have p2: "(2::rat) powi (bitlen ?n - 1 + 1) = 2 ^ nat (bitlen ?n)"
    using b1 by (simp add: power_int_def)
  have "(2::rat) ^ nat (bitlen ?n - 1) = of_int (2 ^ nat (bitlen ?n - 1))" by simp
  also have "\<dots> \<le> of_int ?n" using lo by (simp only: of_int_le_iff)
  also have "\<dots> \<le> x" by simp
  finally have l: "(2::rat) ^ nat (bitlen ?n - 1) \<le> x" .
  have "?n + 1 \<le> 2 ^ nat (bitlen ?n)" using hi by simp
  then have "(of_int (?n + 1) :: rat) \<le> of_int (2 ^ nat (bitlen ?n))"
    by (simp only: of_int_le_iff)
  moreover have "x < of_int (?n + 1)" by linarith
  ultimately have u: "x < 2 ^ nat (bitlen ?n)" by simp
  from l u show ?thesis
    by (simp only: e p1 p2)
qed


lemma exponent_lt1:
  assumes "0 < x" and "x < 1"
  shows "2 powi (exponent x) \<le> x \<and> x < 2 powi (exponent x + 1)"
proof -
  define y where "y = 1 / x"
  have y1: "1 \<le> y" using assms by (simp add: y_def)
  have xy: "x = 1 / y" using assms by (simp add: y_def)
  define j where "j = exponent y"
  from exponent_ge1 [OF y1]
  have lo: "2 powi j \<le> y" and hi: "y < 2 powi (j + 1)"
    by (simp_all add: j_def)
  have j: "j = bitlen \<lfloor>1 / x\<rfloor> - 1"
    using y1 by (simp add: j_def exponent_def y_def)
  have pos: "0 < (2::rat) powi j" by simp
  have inv: "(2::rat) powi (- j) = 1 / 2 powi j"
    by (simp add: power_int_minus field_simps)
  have inv1: "(2::rat) powi (- j - 1) = 1 / 2 powi (j + 1)"
  proof -
    have "- j - 1 = - (j + 1)" by simp
    then have "(2::rat) powi (- j - 1) = 2 powi (- (j + 1))" by (simp only:)
    also have "\<dots> = inverse (2 powi (j + 1))" by (rule power_int_minus)
    finally show ?thesis by (simp only: divide_inverse mult_1)
  qed
  show ?thesis
  proof (cases "x = 2 powi (- j)")
    case True
    then have e: "exponent x = - j"
      using assms j by (simp add: exponent_def Let_def)
    have "2 powi (exponent x + 1) = 2 * x"
      unfolding e powi_plus1 using True by simp
    moreover have "2 powi (exponent x) = x"
      unfolding e using True by simp
    ultimately show ?thesis
      using assms by simp
  next
    case False
    then have e: "exponent x = - j - 1"
      using assms j by (simp add: exponent_def Let_def)
    have "y \<noteq> 2 powi j"
      using False inv xy by auto
    with lo have lo': "2 powi j < y" by simp
    have a: "2 powi (- j - 1) \<le> x"
      using hi y1 unfolding inv1 xy by (simp add: field_simps)
    have b: "x < 2 powi (- j)"
      using lo' pos y1 unfolding inv xy by (simp add: field_simps)
    from a b show ?thesis
      by (simp add: e)
  qed
qed

lemma exponent_bounds:
  assumes "0 < x"
  shows "2 powi (exponent x) \<le> x \<and> x < 2 powi (exponent x + 1)"
  using assms exponent_ge1 [of x] exponent_lt1 [of x] by (cases "1 \<le> x") simp_all


lemma round_half_even_of_int: "round_half_even (of_int n) = n"
  by (simp add: round_half_even_def)

lemma round_half_even_le:
  assumes "x \<le> of_int k"
  shows "round_half_even x \<le> k"
proof -
  have f: "\<lfloor>x\<rfloor> \<le> k" using assms by (simp add: floor_le_iff)
  show ?thesis
  proof (cases "x - of_int \<lfloor>x\<rfloor> < 1 / 2")
    case True
    with f show ?thesis by (simp add: round_half_even_def)
  next
    case False
    then have "of_int \<lfloor>x\<rfloor> < x" by linarith
    with assms have "(of_int \<lfloor>x\<rfloor> :: rat) < of_int k" by linarith
    then have "\<lfloor>x\<rfloor> < k" by (simp only: of_int_less_iff)
    then show ?thesis by (simp add: round_half_even_def Let_def)
  qed
qed

lemma round_half_even_ge:
  assumes "of_int k \<le> x"
  shows "k \<le> round_half_even x"
proof -
  have "k \<le> \<lfloor>x\<rfloor>" using assms by (simp add: le_floor_iff)
  then show ?thesis by (simp add: round_half_even_def Let_def)
qed

lemma round_half_even_above_half:
  assumes "of_int k + 1 / 2 < x"
  shows "k + 1 \<le> round_half_even x"
proof -
  have k: "k \<le> \<lfloor>x\<rfloor>" using assms by (simp add: le_floor_iff)
  show ?thesis
  proof (cases "k = \<lfloor>x\<rfloor>")
    case True
    then have "1 / 2 < x - of_int \<lfloor>x\<rfloor>" using assms by simp
    then show ?thesis using True by (simp add: round_half_even_def Let_def)
  next
    case False
    with k have "k + 1 \<le> \<lfloor>x\<rfloor>" by simp
    then show ?thesis by (simp add: round_half_even_def Let_def)
  qed
qed


lemma powi_scale: "(2::rat) powi (52 - e) = 1 / 2 powi (e - 52)"
proof -
  have "52 - e = - (e - 52)" by simp
  then have "(2::rat) powi (52 - e) = 2 powi (- (e - 52))" by (simp only:)
  also have "\<dots> = inverse (2 powi (e - 52))" by (rule power_int_minus)
  finally show ?thesis by (simp only: divide_inverse mult_1)
qed

lemma round_float64_pos:
  assumes "0 < x"
  shows "round_float64 x
         = of_int (round_half_even (x / 2 powi (exponent x - 52))) * 2 powi (exponent x - 52)"
  using assms by (simp add: round_float64_def Let_def powi_scale)

lemma round_float64_exact:
  assumes "0 < x" and "x / 2 powi (exponent x - 52) = of_int k"
  shows "round_float64 x = x"
proof -
  have "round_float64 x = of_int k * 2 powi (exponent x - 52)"
    using assms by (simp add: round_float64_pos round_half_even_of_int)
  also have "\<dots> = x"
    using assms(2) [symmetric] by simp
  finally show ?thesis .
qed

lemma round_float64_le:
  assumes "0 < x" and "x \<le> of_int k * 2 powi (exponent x - 52)"
  shows "round_float64 x \<le> of_int k * 2 powi (exponent x - 52)"
proof -
  let ?s = "(2::rat) powi (exponent x - 52)"
  have s: "0 < ?s" by simp
  have "x / ?s \<le> of_int k" using assms(2) s by (simp add: field_simps)
  then have "round_half_even (x / ?s) \<le> k" by (rule round_half_even_le)
  then have "(of_int (round_half_even (x / ?s)) :: rat) \<le> of_int k" by (simp only: of_int_le_iff)
  then have "of_int (round_half_even (x / ?s)) * ?s \<le> of_int k * ?s"
    using s by (simp only: mult_le_cancel_right_pos)
  then show ?thesis by (simp only: round_float64_pos [OF assms(1)])
qed

lemma round_float64_ge:
  assumes "0 < x" and "of_int k * 2 powi (exponent x - 52) \<le> x"
  shows "of_int k * 2 powi (exponent x - 52) \<le> round_float64 x"
proof -
  let ?s = "(2::rat) powi (exponent x - 52)"
  have s: "0 < ?s" by simp
  have "of_int k \<le> x / ?s" using assms(2) s by (simp add: field_simps)
  then have "k \<le> round_half_even (x / ?s)" by (rule round_half_even_ge)
  then have "(of_int k :: rat) \<le> of_int (round_half_even (x / ?s))" by (simp only: of_int_le_iff)
  then have "of_int k * ?s \<le> of_int (round_half_even (x / ?s)) * ?s"
    using s by (simp only: mult_le_cancel_right_pos)
  then show ?thesis by (simp only: round_float64_pos [OF assms(1)])
qed

lemma round_float64_above_half:
  assumes "0 < x" and "(of_int k + 1 / 2) * 2 powi (exponent x - 52) < x"
  shows "of_int (k + 1) * 2 powi (exponent x - 52) \<le> round_float64 x"
proof -
  let ?s = "(2::rat) powi (exponent x - 52)"
  have s: "0 < ?s" by simp
  have "of_int k + 1 / 2 < x / ?s" using assms(2) s by (simp add: field_simps)
  then have "k + 1 \<le> round_half_even (x / ?s)" by (rule round_half_even_above_half)
  then have "(of_int (k + 1) :: rat) \<le> of_int (round_half_even (x / ?s))"
    by (simp only: of_int_le_iff)
  then have "of_int (k + 1) * ?s \<le> of_int (round_half_even (x / ?s)) * ?s"
    using s by (simp only: mult_le_cancel_right_pos)
  then show ?thesis by (simp only: round_float64_pos [OF assms(1)])
qed


lemma powi_less_cancel:
  assumes "(2::rat) powi a < 2 powi b"
  shows "a < b"
proof (rule ccontr)
  assume "\<not> a < b"
  then have "b \<le> a" by simp
  then have "(2::rat) powi b \<le> 2 powi a" by (rule power_int_increasing) simp
  with assms show False by simp
qed

lemma exponent_less:
  assumes "0 < x" and "x < 2 powi n"
  shows "exponent x < n"
proof -
  from exponent_bounds [OF assms(1)] have "2 powi (exponent x) \<le> x" by simp
  with assms(2) have "(2::rat) powi (exponent x) < 2 powi n" by simp
  then show ?thesis by (rule powi_less_cancel)
qed

lemma exponent_ge:
  assumes "0 < x" and "2 powi n \<le> x"
  shows "n \<le> exponent x"
proof -
  from exponent_bounds [OF assms(1)] have "x < 2 powi (exponent x + 1)" by simp
  with assms(2) have "(2::rat) powi n < 2 powi (exponent x + 1)" by simp
  then have "n < exponent x + 1" by (rule powi_less_cancel)
  then show ?thesis by simp
qed

lemma powi_52: "of_int (2 ^ 52) * (2::rat) powi (e - 52) = 2 powi e"
proof -
  have "e = 52 + (e - 52)" by simp
  then have "(2::rat) powi e = 2 powi (52 + (e - 52))" by (simp only:)
  also have "\<dots> = 2 powi 52 * 2 powi (e - 52)" by (rule power_int_add) simp
  finally show ?thesis by simp
qed

lemma powi_53: "of_int (2 ^ 53) * (2::rat) powi (e - 52) = 2 powi (e + 1)"
proof -
  have "e + 1 = 53 + (e - 52)" by simp
  then have "(2::rat) powi (e + 1) = 2 powi (53 + (e - 52))" by (simp only:)
  also have "\<dots> = 2 powi 53 * 2 powi (e - 52)" by (rule power_int_add) simp
  finally show ?thesis by simp
qed

lemma round_float64_bracket:
  assumes "0 < x"
  shows "2 powi (exponent x) \<le> round_float64 x \<and> round_float64 x \<le> 2 powi (exponent x + 1)"
proof -
  from exponent_bounds [OF assms]
  have lo: "2 powi (exponent x) \<le> x" and hi: "x < 2 powi (exponent x + 1)" by simp_all
  have "of_int (2 ^ 52) * 2 powi (exponent x - 52) \<le> round_float64 x"
    using lo by (intro round_float64_ge [OF assms]) (simp only: powi_52)
  moreover have "round_float64 x \<le> of_int (2 ^ 53) * 2 powi (exponent x - 52)"
    using hi by (intro round_float64_le [OF assms]) (simp only: powi_53)
  ultimately show ?thesis by (simp only: powi_52 powi_53)
qed

lemma round_float64_int:
  assumes "1 \<le> n" and "n \<le> 2 ^ 53"
  shows "round_float64 (of_int n) = of_int n"
proof -
  let ?x = "of_int n :: rat"
  let ?e = "exponent ?x"
  have pos: "0 < ?x" using assms(1) by simp
  have "(2::rat) powi 0 \<le> ?x" using assms(1) by simp
  then have e0: "0 \<le> ?e" by (rule exponent_ge [OF pos])
  show ?thesis
  proof (cases "n = 2 ^ 53")
    case True
    have "(2::rat) powi 53 \<le> ?x" using True by simp
    then have "53 \<le> ?e" by (rule exponent_ge [OF pos])
    moreover have "?x < 2 powi 54" using True by simp
    then have "?e < 54" by (rule exponent_less [OF pos])
    ultimately have e: "?e = 53" by simp
    have "?x / 2 powi (?e - 52) = of_int (2 ^ 52)"
      unfolding e using True by simp
    then show ?thesis by (rule round_float64_exact [OF pos])
  next
    case False
    with assms(2) have "n < 2 ^ 53" by simp
    then have "?x < of_int (2 ^ 53)" by (simp only: of_int_less_iff)
    then have "?x < 2 powi 53" by simp
    then have "?e < 53" by (rule exponent_less [OF pos])
    then have e52: "?e \<le> 52" by simp
    have "(2::rat) powi (52 - ?e) = 2 ^ nat (52 - ?e)"
      using e52 by (simp add: power_int_def)
    then have "?x / 2 powi (?e - 52) = of_int (n * 2 ^ nat (52 - ?e))"
      using powi_scale [of ?e] by (simp add: field_simps)
    then show ?thesis by (rule round_float64_exact [OF pos])
  qed
qed


lemma scale_int:
  assumes "e \<le> 52"
  shows "of_int (k * 2 ^ nat (52 - e)) * (2::rat) powi (e - 52) = of_int k"
proof -
  have "(2::rat) powi (52 - e) = 2 ^ nat (52 - e)"
    using assms by (simp add: power_int_def)
  moreover have "0 < (2::rat) powi (e - 52)" by simp
  ultimately have "(2::rat) ^ nat (52 - e) * 2 powi (e - 52) = 1"
    using powi_scale [of e] by (simp add: field_simps)
  then show ?thesis by (simp add: mult.assoc)
qed

lemma round_float64_le_int:
  assumes "0 < q" and "q \<le> of_int k" and "exponent q \<le> 52"
  shows "round_float64 q \<le> of_int k"
proof -
  have "q \<le> of_int (k * 2 ^ nat (52 - exponent q)) * 2 powi (exponent q - 52)"
    using assms(2) by (simp only: scale_int [OF assms(3)])
  then have "round_float64 q \<le> of_int (k * 2 ^ nat (52 - exponent q)) * 2 powi (exponent q - 52)"
    by (rule round_float64_le [OF assms(1)])
  then show ?thesis by (simp only: scale_int [OF assms(3)])
qed

lemma round_float64_gt_int:
  assumes "0 < q" and "exponent q \<le> 52" and "of_int j + 2 powi (exponent q - 53) < q"
  shows "of_int j < round_float64 q"
proof -
  let ?e = "exponent q"
  let ?s = "(2::rat) powi (?e - 52)"
  let ?P = "(2::int) ^ nat (52 - ?e)"
  have s: "0 < ?s" by simp
  have "?e - 52 = (?e - 53) + 1" by simp
  then have "?s = 2 powi ((?e - 53) + 1)" by (simp only:)
  then have half: "?s = 2 * 2 powi (?e - 53)" by (simp only: powi_plus1)
  have half2: "?s / 2 = 2 powi (?e - 53)" using half by simp
  have j: "of_int (j * ?P) * ?s = of_int j" by (rule scale_int [OF assms(2)])
  have "(of_int (j * ?P) + 1 / 2) * ?s = of_int (j * ?P) * ?s + ?s / 2"
    by (simp add: algebra_simps)
  also have "\<dots> = of_int j + 2 powi (?e - 53)"
    by (simp only: j half2)
  finally have "(of_int (j * ?P) + 1 / 2) * ?s < q"
    using assms(3) by simp
  then have "of_int (j * ?P + 1) * ?s \<le> round_float64 q"
    by (rule round_float64_above_half [OF assms(1)])
  moreover have "of_int (j * ?P + 1) * ?s = of_int j + ?s"
    using j by (simp add: algebra_simps)
  ultimately have "of_int j + ?s \<le> round_float64 q" by (simp only:)
  with s show ?thesis by linarith
qed


lemma powi_53_split: "(2::rat) powi (e - 53) = 2 powi e / 2 ^ 53"
proof -
  have "(2::rat) powi e = 2 powi (53 + (e - 53))" by simp
  also have "\<dots> = 2 powi 53 * 2 powi (e - 53)" by (rule power_int_add) simp
  finally show ?thesis by simp
qed

lemma ceiling_round_quotient:
  assumes "1 \<le> a" and "a \<le> 2 ^ 53" and "1 \<le> b"
  shows "\<lceil>round_float64 (of_int a / of_int b)\<rceil> = \<lceil>(of_int a / of_int b :: rat)\<rceil>"
proof -
  define q :: rat where "q = of_int a / of_int b"
  define k where "k = \<lceil>q\<rceil>"
  have bpos: "0 < (of_int b :: rat)" using assms(3) by simp
  have qpos: "0 < q" using assms(1,3) by (simp add: q_def)
  have q_le_a: "q \<le> of_int a"
    using assms(1,3) bpos by (simp add: q_def field_simps mult_le_cancel_left1)
  have a_le: "(of_int a :: rat) \<le> 2 ^ 53"
  proof -
    have "(of_int a :: rat) \<le> of_int (2 ^ 53)" using assms(2) by (simp only: of_int_le_iff)
    then show ?thesis by simp
  qed
  have k_ge: "q \<le> of_int k" by (simp add: k_def)
  have k_lt: "of_int k - 1 < q" unfolding k_def using ceiling_correct [of q] by simp
  have k1: "1 \<le> k" using qpos k_ge by (simp add: k_def)
  have "\<lceil>round_float64 q\<rceil> = k"
  proof (cases "q = of_int k")
    case True
    then have "(of_int k :: rat) \<le> of_int a" using q_le_a by simp
    then have "k \<le> a" by (simp only: of_int_le_iff)
    with assms(2) have "k \<le> 2 ^ 53" by simp
    with k1 have "round_float64 (of_int k) = of_int k" by (rule round_float64_int)
    then show ?thesis using True by simp
  next
    case False
    with k_ge have q_lt: "q < of_int k" by simp
    have q53: "q < 2 powi 53"
    proof -
      have "q \<noteq> 2 ^ 53"
      proof
        assume "q = 2 ^ 53"
        then have "q = of_int (2 ^ 53)" by simp
        then have "q = of_int \<lceil>q\<rceil>" by (simp only: ceiling_of_int)
        with False show False by (simp add: k_def)
      qed
      with q_le_a a_le show ?thesis by simp
    qed
    then have "exponent q < 53" by (rule exponent_less [OF qpos])
    then have e52: "exponent q \<le> 52" by simp
    have upper: "round_float64 q \<le> of_int k"
      using qpos k_ge e52 by (rule round_float64_le_int)
    have lower: "of_int k - 1 < round_float64 q"
    proof (cases "k = 1")
      case True
      from round_float64_bracket [OF qpos] have "2 powi (exponent q) \<le> round_float64 q" by simp
      moreover have "0 < (2::rat) powi (exponent q)" by simp
      ultimately have "0 < round_float64 q" by linarith
      then show ?thesis using True by simp
    next
      case False
      with k1 have k2: "2 \<le> k" by simp
      define j where "j = k - 1"
      have j1: "1 \<le> j" using k2 by (simp add: j_def)
      have j_lt: "of_int j < q" using k_lt by (simp add: j_def)
      have "(2::rat) powi 0 \<le> q" using j_lt j1 by simp
      then have e0: "0 \<le> exponent q" by (rule exponent_ge [OF qpos])
      have pe: "(2::rat) powi (exponent q) = of_int (2 ^ nat (exponent q))"
        using e0 by (simp add: power_int_def)
      have "of_int j * of_int b < (of_int a :: rat)"
        using j_lt bpos by (simp add: q_def field_simps)
      then have "(of_int (j * b) :: rat) < of_int a" by simp
      then have "j * b < a" by (simp only: of_int_less_iff)
      then have "1 \<le> a - j * b" by simp
      then have "(1::rat) \<le> of_int (a - j * b)" by (simp only: of_int_1_le_iff)
      then have "1 / of_int b \<le> (of_int a - of_int j * of_int b) / (of_int b :: rat)"
        using bpos by (simp add: divide_right_mono)
      also have "\<dots> = q - of_int j"
        using bpos by (simp add: q_def field_simps)
      finally have gap: "1 / of_int b \<le> q - of_int j" .
      from exponent_bounds [OF qpos] have "2 powi (exponent q) \<le> q" by simp
      then have "of_int (2 ^ nat (exponent q)) * of_int b \<le> (of_int a :: rat)"
        using bpos unfolding pe by (simp add: q_def field_simps)
      then have "(of_int (2 ^ nat (exponent q) * b) :: rat) \<le> of_int a" by simp
      then have le_a: "2 ^ nat (exponent q) * b \<le> a" by (simp only: of_int_le_iff)
      have "2 ^ nat (exponent q) * b \<noteq> a"
      proof
        assume eq: "2 ^ nat (exponent q) * b = a"
        have "q = of_int a / of_int b" by (fact q_def)
        also have "of_int a = (of_int (2 ^ nat (exponent q) * b) :: rat)" by (simp only: eq)
        finally have "q = of_int (2 ^ nat (exponent q) * b) / of_int b" .
        then have "q = of_int (2 ^ nat (exponent q))" using bpos by simp
        then obtain n :: int where qn: "q = of_int n" ..
        then have "\<lceil>q\<rceil> = n" by simp
        with qn have "q = of_int \<lceil>q\<rceil>" by simp
        with \<open>q \<noteq> of_int k\<close> show False by (simp add: k_def)
      qed
      with le_a assms(2) have "2 ^ nat (exponent q) * b < 2 ^ 53" by simp
      then have "(of_int (2 ^ nat (exponent q) * b) :: rat) < of_int (2 ^ 53)"
        by (simp only: of_int_less_iff)
      then have "2 powi (exponent q) * of_int b < (2::rat) ^ 53"
        unfolding pe by simp
      then have "2 powi (exponent q - 53) < 1 / (of_int b :: rat)"
        using bpos by (simp add: powi_53_split field_simps)
      with gap have "of_int j + 2 powi (exponent q - 53) < q" by simp
      with qpos e52 have "of_int j < round_float64 q" by (rule round_float64_gt_int)
      then show ?thesis by (simp add: j_def)
    qed
    from lower upper show ?thesis by (rule ceiling_unique)
  qed
  then show ?thesis by (simp add: q_def k_def)
qed


lemma round_float64_big:
  assumes "2 ^ 53 \<le> n"
  shows "\<exists>m. round_float64 (of_int n) = of_int m \<and> 2 ^ 53 \<le> m"
proof -
  let ?x = "of_int n :: rat"
  let ?e = "exponent ?x"
  have "(of_int (2 ^ 53) :: rat) \<le> of_int n" using assms by (simp only: of_int_le_iff)
  then have x53: "(2::rat) powi 53 \<le> ?x" by simp
  moreover have "0 < (2::rat) powi 53" by simp
  ultimately have pos: "0 < ?x" by linarith
  have e53: "53 \<le> ?e" using x53 by (rule exponent_ge [OF pos])
  then have scale: "(2::rat) powi (?e - 52) = of_int (2 ^ nat (?e - 52))"
    by (simp add: power_int_def)
  define m where "m = round_half_even (?x / 2 powi (?e - 52)) * 2 ^ nat (?e - 52)"
  have val: "round_float64 ?x = of_int m"
    unfolding round_float64_pos [OF pos] m_def by (simp add: scale)
  have "(2::rat) powi 53 \<le> 2 powi ?e" using e53 by (rule power_int_increasing) simp
  also have "\<dots> \<le> round_float64 ?x" using round_float64_bracket [OF pos] by simp
  finally have "(of_int (2 ^ 53) :: rat) \<le> of_int m" by (simp add: val)
  then have "2 ^ 53 \<le> m" by (simp only: of_int_le_iff)
  with val show ?thesis by blast
qed

lemma ceiling_unit:
  assumes "1 \<le> a" and "a \<le> b"
  shows "\<lceil>(of_int a / of_int b :: rat)\<rceil> = 1"
proof (rule ceiling_unique)
  have b: "0 < (of_int b :: rat)" using assms by simp
  show "of_int 1 - 1 < (of_int a / of_int b :: rat)" using assms b by simp
  have "(of_int a :: rat) \<le> of_int b" using assms(2) by (simp only: of_int_le_iff)
  then show "(of_int a / of_int b :: rat) \<le> of_int 1" using b by simp
qed

lemma int_of_float64_of_int:
  assumes "- (2 ^ 63) \<le> c" and "c < 2 ^ 63"
  shows "int_of_float64 (of_int c) = c"
  using assms by (simp add: int_of_float64_def)

text \<open>The page count in terms of the two conversions.\<close>

lemma CalculatePagination_positive:
  assumes "1 \<le> a" and "a \<le> 2 ^ 53" and "1 \<le> b"
  shows "int_of_float64 (math_Ceil (float64_div (float64 a) (float64 b)))
         = \<lceil>(of_int a / of_int b :: rat)\<rceil>"
proof -
  have fa: "float64 a = of_int a"
    using assms(1,2) by (simp add: float64_def round_float64_int)
  have range: "- (2 ^ 63) \<le> \<lceil>(of_int a / of_int b' :: rat)\<rceil>
               \<and> \<lceil>(of_int a / of_int b' :: rat)\<rceil> < 2 ^ 63" if "1 \<le> b'" for b' :: int
  proof -
    have b: "0 < (of_int b' :: rat)" using that by simp
    define c where "c = \<lceil>(of_int a / of_int b' :: rat)\<rceil>"
    have "(of_int a / of_int b' :: rat) \<le> of_int a"
      using assms(1) that b by (simp add: field_simps mult_le_cancel_left1)
    then have upper: "c \<le> a" by (simp add: c_def ceiling_le_iff)
    have "0 \<le> (of_int a / of_int b' :: rat)"
      using assms(1) b by simp
    then have "\<lceil>0::rat\<rceil> \<le> \<lceil>(of_int a / of_int b' :: rat)\<rceil>"
      by (rule ceiling_mono)
    then have lower: "0 \<le> c" by (simp add: c_def)
    from upper lower assms(2) have "- (2 ^ 63) \<le> c \<and> c < 2 ^ 63" by simp
    then show ?thesis by (simp only: c_def)
  qed
  have through: "int_of_float64 (math_Ceil (float64_div (of_int a) (of_int b')))
                 = \<lceil>(of_int a / of_int b' :: rat)\<rceil>" if "1 \<le> b'" for b' :: int
    using ceiling_round_quotient [OF assms(1,2) that] range [OF that]
    by (simp add: float64_div_def math_Ceil_def int_of_float64_of_int)
  show ?thesis
  proof (cases "b \<le> 2 ^ 53")
    case True
    with assms(3) have "float64 b = of_int b"
      by (simp add: float64_def round_float64_int)
    with fa through [OF assms(3)] show ?thesis by simp
  next
    case False
    then have big: "2 ^ 53 \<le> b" by simp
    from round_float64_big [OF big]
    obtain m where m: "float64 b = of_int m" "2 ^ 53 \<le> m"
      by (auto simp add: float64_def)
    have m1: "1 \<le> m" using m(2) by simp
    have "a \<le> m" using assms(2) m(2) by simp
    with assms(1) have "\<lceil>(of_int a / of_int m :: rat)\<rceil> = 1" by (rule ceiling_unit)
    moreover have "a \<le> b" using assms(2) big by simp
    with assms(1) have "\<lceil>(of_int a / of_int b :: rat)\<rceil> = 1" by (rule ceiling_unit)
    ultimately show ?thesis using fa m(1) through [OF m1] by simp
  qed
qed

text \<open>
  Claim C9, as amended. For every total from 0 to \<open>2 ^ 53\<close> and every page size, a size of
  at most 0 counting as 10, \<open>CalculatePagination\<close> is the exact integer ceiling of the total
  divided by the page size; in particular it is 0 for total 0 and size 10, and 3 for total 25
  and size 10.
\<close>

theorem CalculatePagination_exact:
  assumes "0 \<le> n" and "n \<le> 2 ^ 53"
  shows "CalculatePagination n page perPage
         = \<lceil>(of_int n :: rat) / of_int (if perPage \<le> 0 then 10 else perPage)\<rceil>"
proof (cases "n = 0")
  case True
  then show ?thesis
    by (simp add: CalculatePagination_def float64_def float64_div_def round_float64_def
        math_Ceil_def int_of_float64_def)
next
  case False
  with assms(1) have "1 \<le> n" by simp
  moreover have "1 \<le> (if perPage \<le> 0 then 10 else perPage)" by simp
  ultimately have "int_of_float64 (math_Ceil (float64_div (float64 n)
        (float64 (if perPage \<le> 0 then 10 else perPage))))
      = \<lceil>(of_int n / of_int (if perPage \<le> 0 then 10 else perPage) :: rat)\<rceil>"
    using assms(2) by (intro CalculatePagination_positive)
  then show ?thesis by (simp add: CalculatePagination_def Let_def)
qed

theorem CalculatePagination_exact_witness:
  "CalculatePagination 0 1 10 = 0 \<and> CalculatePagination 25 1 10 = 3
   \<and> CalculatePagination 25 1 0 = 3 \<and> CalculatePagination 9007199254740992 1 1 = 9007199254740992"
proof -
  have "(0::int) \<le> 0 \<and> (0::int) \<le> 2 ^ 53" and "(0::int) \<le> 25 \<and> (25::int) \<le> 2 ^ 53"
    and "(0::int) \<le> 9007199254740992 \<and> (9007199254740992::int) \<le> 2 ^ 53"
    by simp_all
  moreover have "\<lceil>(5::rat) / 2\<rceil> = 3"
    by (rule ceiling_unique) simp_all
  ultimately show ?thesis
    using CalculatePagination_exact [of 0 1 10] CalculatePagination_exact [of 25 1 10]
      CalculatePagination_exact [of 25 1 0] CalculatePagination_exact [of 9007199254740992 1 1]
    by simp
qed

text \<open>
  Claim C9 as stated fails for larger totals: \<open>2 ^ 53 + 1\<close> is not a float64, the conversion
  rounds it to \<open>2 ^ 53\<close>, and with page size 1 the result is one less than the exact ceiling.
\<close>

theorem CalculatePagination_counterexample:
  "CalculatePagination 9007199254740993 1 1 = 9007199254740992
   \<and> CalculatePagination 9007199254740993 1 1
       \<noteq> \<lceil>(of_int 9007199254740993 :: rat) / of_int 1\<rceil>"
  by code_simp

end
